theory Spec2Isabelle
  imports Main
begin

section \<open>The module constants of \<open>pelita/universe.py\<close>\<close>

text \<open>
  Python strings are modelled as \<open>string\<close> (lists of 8-bit characters, the \<open>str\<close> of
  Python 2, which the module is written in); a character of a string is a string of
  length one, so membership \<open>c in legal\<close> of a character in a list of strings is
  \<open>[c] \<in> set legal\<close>.
\<close>

definition wall :: string where "wall = ''#''"
definition food :: string where "food = ''.''"
definition harvester :: string where "harvester = ''c''"
definition destroyer :: string where "destroyer = ''o''"
definition free :: string where "free = '' ''"

definition layout_chars :: "string list" where
  "layout_chars = [wall, food, harvester, destroyer, free]"

definition north :: string where "north = ''NORTH''"
definition south :: string where "south = ''SOUTH''"
definition west :: string where "west = ''WEST''"
definition east :: string where "east = ''EAST''"
definition stop :: string where "stop = ''STOP''"

definition move_ids :: "string list" where
  "move_ids = [north, south, east, west, stop]"

lemmas char_defs = wall_def food_def harvester_def destroyer_def free_def
lemmas move_defs = north_def south_def west_def east_def stop_def

section \<open>\<open>new_positions\<close>\<close>

text \<open>The returned dict, keyed by the move names, as a map.\<close>

definition new_positions :: "int \<times> int \<Rightarrow> (string \<rightharpoonup> int \<times> int)" where
  "new_positions current =
     [north \<mapsto> (fst current - 1, snd current),
      south \<mapsto> (fst current + 1, snd current),
      west \<mapsto> (fst current, snd current - 1),
      east \<mapsto> (fst current, snd current + 1),
      stop \<mapsto> (fst current, snd current)]"

section \<open>Exceptions and list indexing\<close>

datatype error = LayoutEncodingException | IndexError | ValueError

text \<open>
  \<open>xs[i]\<close> and \<open>xs[i] = v\<close> on a Python list: an index from \<open>-len\<close> up to \<open>-1\<close>
  counts from the end, any index outside \<open>-len .. len-1\<close> raises \<open>IndexError\<close>.
\<close>

definition list_getitem :: "'a list \<Rightarrow> int \<Rightarrow> error + 'a" where
  "list_getitem xs i =
     (if 0 \<le> i \<and> i < int (length xs) then Inr (xs ! nat i)
      else if i < 0 \<and> - int (length xs) \<le> i then Inr (xs ! nat (int (length xs) + i))
      else Inl IndexError)"

definition list_setitem :: "'a list \<Rightarrow> int \<Rightarrow> 'a \<Rightarrow> error + 'a list" where
  "list_setitem xs i v =
     (if 0 \<le> i \<and> i < int (length xs) then Inr (xs[nat i := v])
      else if i < 0 \<and> - int (length xs) \<le> i then Inr (xs[nat (int (length xs) + i) := v])
      else Inl IndexError)"

section \<open>Strings\<close>

text \<open>
  The string methods the module calls. \<open>s.split('\n')\<close> never returns the empty list
  (so the first case of the \<open>case\<close> in \<open>split\<close> never occurs);
  \<open>s.find('\n')\<close> is the index of the first newline, or \<open>-1\<close> when there is none;
  \<open>s.strip()\<close> removes the leading and trailing whitespace characters (space, tab,
  newline, vertical tab, form feed, carriage return).
\<close>

definition newline :: char where "newline = CHR 0x0A"

definition whitespace :: "char list" where
  "whitespace = [CHR '' '', CHR 0x09, CHR 0x0A, CHR 0x0B, CHR 0x0C, CHR 0x0D]"

definition isspace :: "char \<Rightarrow> bool" where
  "isspace c = (c \<in> set whitespace)"

fun split :: "string \<Rightarrow> char \<Rightarrow> string list" where
  "split [] sep = [[]]"
| "split (c # cs) sep =
     (if c = sep then [] # split cs sep
      else (case split cs sep of [] \<Rightarrow> [[c]] | l # ls \<Rightarrow> (c # l) # ls))"

fun join :: "string \<Rightarrow> string list \<Rightarrow> string" where
  "join sep [] = []"
| "join sep [x] = x"
| "join sep (x # y # ys) = x @ sep @ join sep (y # ys)"

fun find_str :: "string \<Rightarrow> char \<Rightarrow> int" where
  "find_str [] sep = - 1"
| "find_str (c # cs) sep =
     (if c = sep then 0
      else (let r = find_str cs sep in if r < 0 then - 1 else r + 1))"

definition strip :: "string \<Rightarrow> string" where
  "strip s = rev (dropWhile isspace (rev (dropWhile isspace s)))"

text \<open>\<open>str(i)\<close> for \<open>i\<close> of a \<open>range\<close>, and \<open>int(c)\<close> for a one-character string.\<close>

definition digits :: string where "digits = ''0123456789''"

fun str :: "nat \<Rightarrow> string" where
  "str n = (if n < 10 then [digits ! n] else str (n div 10) @ [digits ! (n mod 10)])"

declare str.simps [simp del]

definition digit_value :: "char \<Rightarrow> nat" where
  "digit_value c = length (takeWhile (\<lambda>d. d \<noteq> c) digits)"

definition int_of_char :: "char \<Rightarrow> error + int" where
  "int_of_char c =
     (if c \<in> set digits then Inr (int (digit_value c)) else Inl ValueError)"

section \<open>Layout strings\<close>

definition bot_ids_of :: "int \<Rightarrow> string list" where
  "bot_ids_of number_bots = map str [0..<nat number_bots]"

text \<open>
  The first loop of \<open>check_layout\<close>, over the characters of the layout, with the list
  \<open>existing_bots\<close> it appends to.
\<close>

fun check_chars :: "string list \<Rightarrow> string list \<Rightarrow> string list \<Rightarrow> string \<Rightarrow> error + string list" where
  "check_chars legal bot_ids existing_bots [] = Inr existing_bots"
| "check_chars legal bot_ids existing_bots (c # cs) =
     (if [c] \<notin> set legal then Inl LayoutEncodingException
      else if [c] \<in> set bot_ids then
        (if [c] \<in> set existing_bots then Inl LayoutEncodingException
         else check_chars legal bot_ids (existing_bots @ [[c]]) cs)
      else check_chars legal bot_ids existing_bots cs)"

text \<open>The second loop, over the indices \<open>range(len(lines))\<close>.\<close>

fun check_lines :: "string list \<Rightarrow> nat list \<Rightarrow> error + unit" where
  "check_lines lines [] = Inr ()"
| "check_lines lines (i # is) =
     (if length (lines ! i) \<noteq> length (lines ! 0) then Inl LayoutEncodingException
      else check_lines lines is)"

definition check_layout :: "string \<Rightarrow> int \<Rightarrow> error + unit" where
  "check_layout layout_str number_bots =
     (let bot_ids = bot_ids_of number_bots;
          legal = layout_chars @ bot_ids @ [[newline]]
      in case check_chars legal bot_ids [] layout_str of
           Inl e \<Rightarrow> Inl e
         | Inr existing_bots \<Rightarrow>
             if bot_ids \<noteq> existing_bots then Inl LayoutEncodingException
             else (let lines = split layout_str newline
                   in check_lines lines [0..<length lines]))"

definition strip_layout :: "string \<Rightarrow> string" where
  "strip_layout layout_str = join [newline] (map strip (split layout_str newline))"

definition layout_shape :: "string \<Rightarrow> int \<times> int" where
  "layout_shape layout_str =
     (int (length (split layout_str newline)), find_str layout_str newline)"

definition convert_to_grid :: "string \<Rightarrow> char list list" where
  "convert_to_grid layout_str = map strip (split layout_str newline)"

section \<open>Extraction of the bots and of the food\<close>

text \<open>
  \<open>g[h][w]\<close> and \<open>g[h][w] = v\<close> on a list of lists, for \<open>h\<close> and \<open>w\<close> of a
  \<open>range\<close>. The rows of a grid made by \<open>convert_to_grid\<close> are distinct list objects,
  so the assignment changes one cell of one row.
\<close>

definition grid_getitem :: "'a list list \<Rightarrow> nat \<Rightarrow> nat \<Rightarrow> error + 'a" where
  "grid_getitem g h w =
     (case list_getitem g (int h) of
        Inl e \<Rightarrow> Inl e
      | Inr row \<Rightarrow> list_getitem row (int w))"

definition grid_setitem :: "'a list list \<Rightarrow> nat \<Rightarrow> nat \<Rightarrow> 'a \<Rightarrow> error + 'a list list" where
  "grid_setitem g h w v =
     (case list_getitem g (int h) of
        Inl e \<Rightarrow> Inl e
      | Inr row \<Rightarrow>
          (case list_setitem row (int w) v of
             Inl e \<Rightarrow> Inl e
           | Inr row' \<Rightarrow> list_setitem g (int h) row'))"

text \<open>
  The generator \<open>((h,w) for h in range(height) for w in range(width))\<close>, and a loop
  over a list that stops at the first exception.
\<close>

definition cells :: "int \<Rightarrow> int \<Rightarrow> (nat \<times> nat) list" where
  "cells height width = List.product [0..<nat height] [0..<nat width]"

fun for_each :: "('a \<Rightarrow> 's \<Rightarrow> error + 's) \<Rightarrow> 'a list \<Rightarrow> 's \<Rightarrow> error + 's" where
  "for_each body [] s = Inr s"
| "for_each body (x # xs) s =
     (case body x s of Inl e \<Rightarrow> Inl e | Inr s' \<Rightarrow> for_each body xs s')"

text \<open>
  The body of the loop of \<open>initial_positions\<close>, on the pair of \<open>start\<close> and
  \<open>layout_grid\<close>. \<open>int\<close> is only applied to a cell that is one of \<open>bot_ids\<close>, a
  decimal numeral.
\<close>

definition initial_positions_body ::
  "string list \<Rightarrow> nat \<times> nat \<Rightarrow> (int \<times> int) list \<times> char list list
     \<Rightarrow> error + (int \<times> int) list \<times> char list list" where
  "initial_positions_body bot_ids hw s =
     (case grid_getitem (snd s) (fst hw) (snd hw) of
        Inl e \<Rightarrow> Inl e
      | Inr c \<Rightarrow>
          if [c] \<in> set bot_ids then
            (case int_of_char c of
               Inl e \<Rightarrow> Inl e
             | Inr i \<Rightarrow>
                 (case list_setitem (fst s) i (int (fst hw), int (snd hw)) of
                    Inl e \<Rightarrow> Inl e
                  | Inr start \<Rightarrow>
                      (case grid_setitem (snd s) (fst hw) (snd hw) (CHR '' '') of
                         Inl e \<Rightarrow> Inl e
                       | Inr layout_grid \<Rightarrow> Inr (start, layout_grid))))
          else Inr s)"

definition initial_positions ::
  "char list list \<Rightarrow> int \<times> int \<Rightarrow> int
     \<Rightarrow> error + (int \<times> int) list \<times> char list list" where
  "initial_positions layout_grid shape number_bots =
     (let bot_ids = bot_ids_of number_bots;
          start = replicate (nat number_bots) (0, 0)
      in for_each (initial_positions_body bot_ids) (cells (fst shape) (snd shape))
           (start, layout_grid))"

definition extract_food_body ::
  "nat \<times> nat \<Rightarrow> bool list list \<times> char list list
     \<Rightarrow> error + bool list list \<times> char list list" where
  "extract_food_body hw s =
     (case grid_getitem (snd s) (fst hw) (snd hw) of
        Inl e \<Rightarrow> Inl e
      | Inr c \<Rightarrow>
          if [c] = food then
            (case grid_setitem (fst s) (fst hw) (snd hw) True of
               Inl e \<Rightarrow> Inl e
             | Inr food_grid \<Rightarrow>
                 (case grid_setitem (snd s) (fst hw) (snd hw) (CHR '' '') of
                    Inl e \<Rightarrow> Inl e
                  | Inr layout_grid \<Rightarrow> Inr (food_grid, layout_grid)))
          else Inr s)"

definition extract_food ::
  "char list list \<Rightarrow> int \<times> int \<Rightarrow> error + bool list list \<times> char list list" where
  "extract_food layout_grid shape =
     (let food_grid = replicate (nat (fst shape)) (replicate (nat (snd shape)) False)
      in for_each extract_food_body (cells (fst shape) (snd shape)) (food_grid, layout_grid))"

section \<open>The class \<open>Mesh\<close>\<close>

text \<open>
  The attributes \<open>height\<close>, \<open>width\<close>, \<open>shape\<close> and the flat list \<open>_data\<close> (here
  \<open>data\<close>). A cell holds any object or \<open>None\<close>: an \<open>'a option\<close>.
\<close>

record 'a Mesh =
  height :: int
  width :: int
  shape :: "int \<times> int"
  data :: "'a option list"

definition Mesh_init :: "int \<Rightarrow> int \<Rightarrow> 'a Mesh" where
  "Mesh_init h w =
     \<lparr>Mesh.height = h, Mesh.width = w, Mesh.shape = (h, w),
      data = replicate (nat (w * h)) None\<rparr>"

definition check_index :: "'a Mesh \<Rightarrow> int \<times> int \<Rightarrow> error + unit" where
  "check_index m index =
     (if fst index \<ge> Mesh.height m \<or> fst index < 0 then Inl IndexError
      else if snd index \<ge> Mesh.width m \<or> snd index < 0 then Inl IndexError
      else Inr ())"

definition getitem :: "'a Mesh \<Rightarrow> int \<times> int \<Rightarrow> error + 'a option" where
  "getitem m index =
     (case check_index m index of
        Inl e \<Rightarrow> Inl e
      | Inr _ \<Rightarrow> list_getitem (data m) (fst index * Mesh.width m + snd index))"

definition setitem :: "'a Mesh \<Rightarrow> int \<times> int \<Rightarrow> 'a option \<Rightarrow> error + 'a Mesh" where
  "setitem m index item =
     (case check_index m index of
        Inl e \<Rightarrow> Inl e
      | Inr _ \<Rightarrow>
          (case list_setitem (data m) (fst index * Mesh.width m + snd index) item of
             Inl e \<Rightarrow> Inl e
           | Inr d \<Rightarrow> Inr (m\<lparr>data := d\<rparr>)))"

text \<open>
  The meshes a program can hold: the result of the constructor, and the result of any
  assignment \<open>m[i] = v\<close> that returned, on a mesh it could hold.
\<close>

inductive constructed :: "int \<Rightarrow> int \<Rightarrow> 'a Mesh \<Rightarrow> bool" for h w :: int where
  by_init: "constructed h w (Mesh_init h w)"
| by_setitem: "constructed h w m \<Longrightarrow> setitem m index item = Inr m' \<Longrightarrow> constructed h w m'"

section \<open>The class \<open>Universe\<close>\<close>

record Universe =
  initial_layout :: string
  number_bots :: int
  width :: int
  height :: int
  shape :: "int \<times> int"
  layout :: "char list list"
  initial_pos :: "(int \<times> int) list"
  bot_positions :: "(int \<times> int) list"
  food_positions :: "bool list list"

text \<open>
  The constructor. \<open>layout\<close> is the one grid object that \<open>initial_positions\<close> and then
  \<open>extract_food\<close> change in place.
\<close>

definition Universe_init :: "string \<Rightarrow> int \<Rightarrow> error + Universe" where
  "Universe_init layout_str n =
     (let il = strip_layout layout_str
      in case check_layout il n of
           Inl e \<Rightarrow> Inl e
         | Inr _ \<Rightarrow>
             (let wh = layout_shape il;
                  sh = (fst wh, snd wh)
              in case initial_positions (convert_to_grid il) sh n of
                   Inl e \<Rightarrow> Inl e
                 | Inr (start, grid1) \<Rightarrow>
                     (case extract_food grid1 sh of
                        Inl e \<Rightarrow> Inl e
                      | Inr (food_grid, grid2) \<Rightarrow>
                          Inr \<lparr>initial_layout = il, number_bots = n,
                               width = fst wh, height = snd wh, shape = sh,
                               layout = grid2, initial_pos = start,
                               bot_positions = start, food_positions = food_grid\<rparr>)))"

section \<open>The conditions of a layout error\<close>

text \<open>
  The characters of a text as one-character strings, and the bot markers among them in
  the order of the text.
\<close>

definition chars_of :: "string \<Rightarrow> string list" where
  "chars_of s = map (\<lambda>c. [c]) s"

definition markers_of :: "string \<Rightarrow> int \<Rightarrow> string" where
  "markers_of s n = filter (\<lambda>c. [c] \<in> set (bot_ids_of n)) s"

text \<open>
  The four conditions of the specification, on a text \<open>s\<close> and a bot count \<open>n\<close>. The
  first one comes twice: with the characters the specification allows (wall, food, free,
  newline and the markers), and with the list \<open>legal\<close> of the code, which also has the
  harvester and the destroyer.
\<close>

definition unrecognized_char :: "string \<Rightarrow> int \<Rightarrow> bool" where
  "unrecognized_char s n =
     list_ex (\<lambda>c. c \<notin> set ([wall, food, free, [newline]] @ bot_ids_of n)) (chars_of s)"

definition illegal_char :: "string \<Rightarrow> int \<Rightarrow> bool" where
  "illegal_char s n =
     list_ex (\<lambda>c. c \<notin> set (layout_chars @ bot_ids_of n @ [[newline]])) (chars_of s)"

definition marker_missing :: "string \<Rightarrow> int \<Rightarrow> bool" where
  "marker_missing s n = list_ex (\<lambda>b. count_list (chars_of s) b = 0) (bot_ids_of n)"

definition marker_twice :: "string \<Rightarrow> int \<Rightarrow> bool" where
  "marker_twice s n = list_ex (\<lambda>b. 2 \<le> count_list (chars_of s) b) (bot_ids_of n)"

definition rows_differ :: "string \<Rightarrow> bool" where
  "rows_differ s =
     list_ex (\<lambda>l. length l \<noteq> length (hd (split s newline))) (split s newline)"

text \<open>The markers stand in the text in the order of their ids.\<close>

definition markers_ascending :: "string \<Rightarrow> int \<Rightarrow> bool" where
  "markers_ascending s n = sorted (map digit_value (markers_of s n))"

text \<open>The value of a decimal numeral, the inverse of \<open>str\<close>.\<close>

definition decimal_value :: "string \<Rightarrow> nat" where
  "decimal_value s = foldl (\<lambda>a c. 10 * a + digit_value c) 0 s"

text \<open>
  The layout of the test \<open>test_convenience\<close> and of the scenario of the specification,
  its lines stripped.
\<close>

definition test_layout :: string where
  "test_layout =
     ''##################\<newline>#0#.  .  # .     #\<newline>#2#####    ####1 #\<newline>#     . #  .  #3##\<newline>##################''"

text \<open>A grid of wall and free cells only.\<close>

definition only_wall_free :: "char list list \<Rightarrow> bool" where
  "only_wall_free g = list_all (list_all (\<lambda>c. [c] = wall \<or> [c] = free)) g"

text \<open>
  What the two extractions leave in a cell, the cells that hold food, and a grid whose
  cells are wall, harvester, destroyer or free.
\<close>

definition clear_bots :: "int \<Rightarrow> char \<Rightarrow> char" where
  "clear_bots n c = (if [c] \<in> set (bot_ids_of n) then CHR '' '' else c)"

definition clear_food :: "char \<Rightarrow> char" where
  "clear_food c = (if [c] = food then CHR '' '' else c)"

definition is_food :: "char \<Rightarrow> bool" where
  "is_food c = ([c] = food)"

definition static_cells :: "char list list \<Rightarrow> bool" where
  "static_cells g =
     list_all (list_all (\<lambda>c. [c] \<in> set [wall, harvester, destroyer, free])) g"

section \<open>Properties of \<open>new_positions\<close>\<close>

text \<open>
  C4. For every position \<open>p\<close>, \<open>new_positions p\<close> has exactly the five keys
  north, south, west, east and stop; stop maps to \<open>p\<close> itself, north and south to the
  first coordinate minus and plus one, west and east to the second coordinate minus and
  plus one.
\<close>

theorem new_positions_five_entries:
  "dom (new_positions p) = {north, south, west, east, stop}
   \<and> card (dom (new_positions p)) = 5
   \<and> new_positions p stop = Some p
   \<and> new_positions p north = Some (fst p - 1, snd p)
   \<and> new_positions p south = Some (fst p + 1, snd p)
   \<and> new_positions p west = Some (fst p, snd p - 1)
   \<and> new_positions p east = Some (fst p, snd p + 1)"
  by (auto simp: new_positions_def move_defs)

section \<open>Properties of \<open>Mesh\<close>\<close>

lemma nat_mult_flat:
  fixes r h c w :: int
  assumes "0 \<le> r" "r < h" "0 \<le> c" "c < w"
  shows "r * w + c < w * h" "0 \<le> r * w + c"
proof -
  have "r + 1 \<le> h" using assms by simp
  then have "(r + 1) * w \<le> h * w"
    using assms by (intro mult_right_mono) auto
  then show "r * w + c < w * h"
    using assms by (simp add: algebra_simps)
  show "0 \<le> r * w + c" using assms by simp
qed

lemma flat_offset_inj:
  fixes r c r' c' w :: int
  assumes "0 \<le> c" "c < w" "0 \<le> c'" "c' < w" "r * w + c = r' * w + c'"
  shows "r = r' \<and> c = c'"
proof -
  have "0 < w" using assms by simp
  then have a: "(r * w + c) div w = r" and b: "(r' * w + c') div w = r'"
    using assms(1-4) by (simp_all add: div_pos_pos_trivial)
  have "(r * w + c) div w = (r' * w + c') div w"
    by (simp only: assms(5))
  then have "r = r'" by (simp only: a b)
  then show ?thesis using assms by simp
qed

lemma constructed_inv:
  "constructed h w m \<Longrightarrow>
     Mesh.height m = h \<and> Mesh.width m = w \<and> Mesh.shape m = (h, w)
     \<and> length (data m) = nat (w * h)"
proof (induction rule: constructed.induct)
  case by_init
  show ?case by (simp add: Mesh_init_def)
next
  case (by_setitem m index item m')
  then show ?case
    by (auto simp: setitem_def list_setitem_def split: sum.splits if_splits)
qed

text \<open>
  C9. On a mesh constructed with height \<open>h\<close> and width \<open>w\<close>, reading and writing at
  \<open>(r, c)\<close> raise \<open>IndexError\<close> exactly when \<open>r < 0\<close>, \<open>r \<ge> h\<close>, \<open>c < 0\<close> or
  \<open>c \<ge> w\<close>; at an index in bounds both succeed, on the element of the flat list at
  offset \<open>r * w + c\<close>, which is inside the list.
\<close>

theorem Mesh_access_checked:
  assumes "constructed h w m"
  shows "(getitem m (r, c) = Inl IndexError \<longleftrightarrow> r < 0 \<or> r \<ge> h \<or> c < 0 \<or> c \<ge> w)
    \<and> (setitem m (r, c) v = Inl IndexError \<longleftrightarrow> r < 0 \<or> r \<ge> h \<or> c < 0 \<or> c \<ge> w)
    \<and> (0 \<le> r \<and> r < h \<and> 0 \<le> c \<and> c < w \<longrightarrow>
         nat (r * w + c) < length (data m)
         \<and> getitem m (r, c) = Inr (data m ! nat (r * w + c))
         \<and> setitem m (r, c) v = Inr (m\<lparr>data := (data m)[nat (r * w + c) := v]\<rparr>))"
proof -
  have inv: "Mesh.height m = h" "Mesh.width m = w" "length (data m) = nat (w * h)"
    using constructed_inv [OF assms] by simp_all
  show ?thesis
  proof (cases "0 \<le> r \<and> r < h \<and> 0 \<le> c \<and> c < w")
    case False
    then show ?thesis
      by (auto simp: getitem_def setitem_def check_index_def inv)
  next
    case True
    then have off: "r * w + c < w * h" "0 \<le> r * w + c"
      using nat_mult_flat [of r h c w] by simp_all
    then have lt: "nat (r * w + c) < length (data m)"
      by (simp add: inv)
    have chk: "check_index m (r, c) = Inr ()"
      using True by (simp add: check_index_def inv)
    have g: "getitem m (r, c) = Inr (data m ! nat (r * w + c))"
      using off by (simp add: getitem_def chk list_getitem_def inv)
    have s: "setitem m (r, c) v = Inr (m\<lparr>data := (data m)[nat (r * w + c) := v]\<rparr>)"
      using off by (simp add: setitem_def chk list_setitem_def inv)
    show ?thesis using True lt g s by simp
  qed
qed

theorem Mesh_access_checked_witness:
  "constructed 2 3 (Mesh_init 2 3 :: nat Mesh)
   \<and> getitem (Mesh_init 2 3 :: nat Mesh) (1, 2) = Inr None
   \<and> setitem (Mesh_init 2 3 :: nat Mesh) (1, 2) (Some 7)
       = Inr ((Mesh_init 2 3) \<lparr>data := [None, None, None, None, None, Some 7]\<rparr>)
   \<and> getitem (Mesh_init 2 3 :: nat Mesh) (2, 0) = Inl IndexError
   \<and> setitem (Mesh_init 2 3 :: nat Mesh) (0, -1) (Some 7) = Inl IndexError"
proof -
  have c: "constructed 2 3 (Mesh_init 2 3 :: nat Mesh)" by (rule by_init)
  have d: "data (Mesh_init 2 3 :: nat Mesh) = [None, None, None, None, None, None]"
    by (simp add: Mesh_init_def eval_nat_numeral)
  show ?thesis
    using c d
      Mesh_access_checked [OF c, of 1 2 "Some 7"]
      Mesh_access_checked [OF c, of 2 0 "Some 7"]
      Mesh_access_checked [OF c, of 0 "-1" "Some 7"]
    by (simp add: eval_nat_numeral)
qed

text \<open>
  C10. On a constructed mesh, an assignment \<open>m[i] = v\<close> at an index in bounds returns;
  afterwards \<open>m[i]\<close> reads \<open>v\<close>, every other index in bounds reads what it read
  before, and \<open>height\<close>, \<open>width\<close> and \<open>shape\<close> are as they were.
\<close>

theorem Mesh_setitem_frame:
  assumes "constructed h w m"
    and "0 \<le> r" "r < h" "0 \<le> c" "c < w"
  shows "\<exists>m'. setitem m (r, c) v = Inr m'
    \<and> getitem m' (r, c) = Inr v
    \<and> (\<forall>r' c'. 0 \<le> r' \<and> r' < h \<and> 0 \<le> c' \<and> c' < w \<and> (r', c') \<noteq> (r, c)
          \<longrightarrow> getitem m' (r', c') = getitem m (r', c'))
    \<and> Mesh.height m' = Mesh.height m \<and> Mesh.width m' = Mesh.width m
    \<and> Mesh.shape m' = Mesh.shape m"
proof -
  let ?m' = "m\<lparr>data := (data m)[nat (r * w + c) := v]\<rparr>"
  have s: "setitem m (r, c) v = Inr ?m'"
    and lt: "nat (r * w + c) < length (data m)"
    using Mesh_access_checked [OF assms(1), of r c v] assms(2-5) by simp_all
  have c': "constructed h w ?m'"
    using by_setitem [OF assms(1) s] .
  have g: "getitem ?m' (r, c) = Inr v"
    using Mesh_access_checked [OF c', of r c v] assms(2-5) lt by simp
  have other: "getitem ?m' (r', c') = getitem m (r', c')"
    if b: "0 \<le> r' \<and> r' < h \<and> 0 \<le> c' \<and> c' < w" and ne: "(r', c') \<noteq> (r, c)"
    for r' c'
  proof -
    have "r' * w + c' \<noteq> r * w + c"
      using flat_offset_inj [of c' w c r' r] b assms(2-5) ne by auto
    moreover have "0 \<le> r' * w + c'" "0 \<le> r * w + c"
      using b assms(2-5) by simp_all
    ultimately have "nat (r' * w + c') \<noteq> nat (r * w + c)" by simp
    then show ?thesis
      using Mesh_access_checked [OF c', of r' c' v]
        Mesh_access_checked [OF assms(1), of r' c' v] b
      by simp
  qed
  show ?thesis
    using s g other by (intro exI [of _ ?m']) simp
qed

theorem Mesh_setitem_frame_witness:
  "constructed 2 3 (Mesh_init 2 3 :: nat Mesh)
   \<and> (\<exists>m'. setitem (Mesh_init 2 3 :: nat Mesh) (1, 0) (Some 4) = Inr m'
        \<and> getitem m' (1, 0) = Inr (Some 4)
        \<and> getitem m' (0, 1) = getitem (Mesh_init 2 3) (0, 1)
        \<and> Mesh.height m' = 2 \<and> Mesh.width m' = 3 \<and> Mesh.shape m' = (2, 3))"
proof -
  have c: "constructed 2 3 (Mesh_init 2 3 :: nat Mesh)" by (rule by_init)
  obtain m' where m': "setitem (Mesh_init 2 3 :: nat Mesh) (1, 0) (Some 4) = Inr m'"
    "getitem m' (1, 0) = Inr (Some 4)"
    "\<forall>r' c'. 0 \<le> r' \<and> r' < 2 \<and> 0 \<le> c' \<and> c' < 3 \<and> (r', c') \<noteq> (1, 0)
          \<longrightarrow> getitem m' (r', c') = getitem (Mesh_init 2 3) (r', c')"
    "Mesh.height m' = Mesh.height (Mesh_init 2 3 :: nat Mesh)"
    "Mesh.width m' = Mesh.width (Mesh_init 2 3 :: nat Mesh)"
    "Mesh.shape m' = Mesh.shape (Mesh_init 2 3 :: nat Mesh)"
    using Mesh_setitem_frame [OF c, of 1 0 "Some 4"] by auto
  have "getitem m' (0, 1) = getitem (Mesh_init 2 3) (0, 1)"
    using m'(3) by simp
  then show ?thesis
    using c m' by (auto simp: Mesh_init_def)
qed

section \<open>Properties of \<open>check_layout\<close>\<close>

lemma check_chars_eq:
  "check_chars legal ids ex s =
     (if (\<forall>c\<in>set s. [c] \<in> set legal)
         \<and> distinct (chars_of (filter (\<lambda>c. [c] \<in> set ids) s))
         \<and> set ex \<inter> set (chars_of (filter (\<lambda>c. [c] \<in> set ids) s)) = {}
      then Inr (ex @ chars_of (filter (\<lambda>c. [c] \<in> set ids) s))
      else Inl LayoutEncodingException)"
proof (induction s arbitrary: ex)
  case Nil
  show ?case by (simp add: chars_of_def)
next
  case (Cons c cs)
  show ?case
    by (auto simp: Cons.IH chars_of_def)
qed

lemma check_lines_eq:
  "check_lines ls js =
     (if \<forall>i\<in>set js. length (ls ! i) = length (ls ! 0) then Inr ()
      else Inl LayoutEncodingException)"
  by (induction js) auto

lemma split_not_Nil [simp]: "split s sep \<noteq> []"
  by (induction s) (auto split: list.splits)

lemma check_lines_all:
  "check_lines ls [0..<length ls] =
     (if \<forall>l\<in>set ls. length l = length (hd ls) then Inr ()
      else Inl LayoutEncodingException)"
proof (cases ls)
  case Nil
  then show ?thesis by simp
next
  case (Cons a as)
  then have "hd ls = ls ! 0" by simp
  moreover have "(\<forall>i\<in>set [0..<length ls]. length (ls ! i) = length (ls ! 0))
      \<longleftrightarrow> (\<forall>l\<in>set ls. length l = length (ls ! 0))"
    by (auto simp: all_set_conv_all_nth)
  ultimately show ?thesis by (simp only: check_lines_eq)
qed

lemma digit_value_digits: "k < 10 \<Longrightarrow> digit_value (digits ! k) = k"
proof -
  have "\<forall>k\<in>set [0..<10]. digit_value (digits ! k) = k"
    by code_simp
  then show "k < 10 \<Longrightarrow> digit_value (digits ! k) = k" by simp
qed

lemma decimal_value_str: "decimal_value (str n) = n"
proof (induction n rule: str.induct)
  case (1 n)
  show ?case
  proof (cases "n < 10")
    case True
    then show ?thesis
      by (subst str.simps) (simp add: decimal_value_def digit_value_digits)
  next
    case False
    then have "decimal_value (str (n div 10)) = n div 10" using 1 by simp
    then show ?thesis
      using False
      by (subst str.simps) (simp add: decimal_value_def digit_value_digits)
  qed
qed

lemma str_inj: "str a = str b \<Longrightarrow> a = b"
  by (metis decimal_value_str)

lemma distinct_bot_ids: "distinct (bot_ids_of n)"
  by (auto simp: bot_ids_of_def distinct_map inj_on_def dest: str_inj)

lemma check_chars_layout:
  "check_chars (layout_chars @ bot_ids_of n @ [[newline]]) (bot_ids_of n) [] s =
     (if (\<forall>c\<in>set s. [c] \<in> set (layout_chars @ bot_ids_of n @ [[newline]]))
         \<and> distinct (chars_of (markers_of s n))
      then Inr (chars_of (markers_of s n))
      else Inl LayoutEncodingException)"
    by (simp only: check_chars_eq markers_of_def) simp

lemma not_distinct_markers:
  "\<not> distinct (chars_of (markers_of s n)) \<Longrightarrow> chars_of (markers_of s n) \<noteq> bot_ids_of n"
    using distinct_bot_ids [of n] by auto

lemma check_layout_chars_ok:
  "(\<forall>c\<in>set s. [c] \<in> set (layout_chars @ bot_ids_of n @ [[newline]]))
     \<and> distinct (chars_of (markers_of s n)) \<Longrightarrow>
   check_layout s n =
     (if chars_of (markers_of s n) \<noteq> bot_ids_of n then Inl LayoutEncodingException
      else check_lines (split s newline) [0..<length (split s newline)])"
  by (simp only: check_layout_def Let_def check_chars_layout if_True sum.case) auto

lemma check_layout_chars_bad:
  "\<not> ((\<forall>c\<in>set s. [c] \<in> set (layout_chars @ bot_ids_of n @ [[newline]]))
       \<and> distinct (chars_of (markers_of s n))) \<Longrightarrow>
   check_layout s n = Inl LayoutEncodingException"
  by (simp only: check_layout_def Let_def check_chars_layout if_False sum.case)


lemma check_layout_eq:
  "check_layout s n =
     (if (\<forall>c\<in>set s. [c] \<in> set (layout_chars @ bot_ids_of n @ [[newline]]))
         \<and> chars_of (markers_of s n) = bot_ids_of n
         \<and> (\<forall>l\<in>set (split s newline). length l = length (hd (split s newline)))
      then Inr () else Inl LayoutEncodingException)"
  (is "_ = (if ?A \<and> ?M \<and> ?R then _ else _)")
proof (cases "?A \<and> ?M \<and> ?R")
  case True
  then have a: ?A and m: ?M and r: ?R by blast+
  have d: "distinct (chars_of (markers_of s n))"
    by (simp only: m distinct_bot_ids)
  have "check_layout s n = check_lines (split s newline) [0..<length (split s newline)]"
    using check_layout_chars_ok [of s n] a d m by simp
  also have "\<dots> = Inr ()"
    unfolding check_lines_all by (rule if_P) (rule r)
  finally show ?thesis
    by (simp only: if_P [OF True])
next
  case False
  have "check_layout s n = Inl LayoutEncodingException"
  proof (cases "?A \<and> distinct (chars_of (markers_of s n))")
    case ad: True
    show ?thesis
    proof (cases ?M)
      case m: True
      have nr: "\<not> ?R" using False ad m by blast
      have "check_layout s n = check_lines (split s newline) [0..<length (split s newline)]"
        using check_layout_chars_ok [OF ad] m by simp
      also have "\<dots> = Inl LayoutEncodingException"
        unfolding check_lines_all by (rule if_not_P) (rule nr)
      finally show ?thesis .
    next
      case m: False
      show ?thesis using check_layout_chars_ok [OF ad] m by simp
    qed
  next
    case nad: False
    show ?thesis by (rule check_layout_chars_bad [OF nad])
  qed
  then show ?thesis
    by (simp only: if_not_P [OF False])
qed

lemma str_small: "i < 10 \<Longrightarrow> str i = [digits ! i]"
  by (subst str.simps) simp

lemma length_str_big: "10 \<le> i \<Longrightarrow> 2 \<le> length (str i)"
proof -
  assume a: "10 \<le> i"
  have "length (str (i div 10)) \<ge> 1"
    by (subst str.simps) simp
  then show ?thesis using a by (subst str.simps) simp
qed

lemma chars_of_filter:
  "chars_of (filter (\<lambda>c. [c] \<in> S) s) = filter (\<lambda>x. x \<in> S) (chars_of s)"
  by (induction s) (auto simp: chars_of_def)

lemma count_list_filter:
  "count_list (filter P xs) b = (if P b then count_list xs b else 0)"
  by (induction xs) auto

lemma distinct_count_le:
  "distinct xs \<Longrightarrow> count_list xs x \<le> 1"
  by (induction xs) auto

lemma count_le_distinct:
  "(\<forall>x\<in>set xs. count_list xs x \<le> 1) \<Longrightarrow> distinct xs"
proof (induction xs)
  case Nil
  show ?case by simp
next
  case (Cons a xs)
  have "count_list (a # xs) a \<le> 1" using Cons.prems by simp
  then have a: "a \<notin> set xs" by (simp add: count_list_0_iff)
  have "\<forall>x\<in>set xs. count_list xs x \<le> 1"
  proof
    fix x assume x: "x \<in> set xs"
    then have "count_list (a # xs) x \<le> 1" using Cons.prems by simp
    then show "count_list xs x \<le> 1" by (simp split: if_splits)
  qed
  then show ?case using Cons.IH a by simp
qed

lemma count_markers:
  "b \<in> set (bot_ids_of n) \<Longrightarrow>
     count_list (chars_of (markers_of s n)) b = count_list (chars_of s) b"
  by (simp add: markers_of_def chars_of_filter count_list_filter)

lemma illegal_char_iff:
  "illegal_char s n \<longleftrightarrow> \<not> (\<forall>c\<in>set s. [c] \<in> set (layout_chars @ bot_ids_of n @ [[newline]]))"
  by (simp add: illegal_char_def chars_of_def list_ex_iff)

lemma rows_differ_iff:
  "rows_differ s \<longleftrightarrow> \<not> (\<forall>l\<in>set (split s newline). length l = length (hd (split s newline)))"
  by (simp add: rows_differ_def list_ex_iff)

lemma marker_missing_neq:
  assumes "marker_missing s n"
  shows "chars_of (markers_of s n) \<noteq> bot_ids_of n"
proof
  assume eq: "chars_of (markers_of s n) = bot_ids_of n"
  from assms obtain b where b: "b \<in> set (bot_ids_of n)" "count_list (chars_of s) b = 0"
    by (auto simp: marker_missing_def list_ex_iff)
  then have "count_list (chars_of (markers_of s n)) b = 0"
    by (simp add: count_markers)
  then have "b \<notin> set (chars_of (markers_of s n))"
    by (simp add: count_list_0_iff)
  then show False using b(1) eq by simp
qed

lemma marker_twice_neq:
  assumes "marker_twice s n"
  shows "chars_of (markers_of s n) \<noteq> bot_ids_of n"
proof
  assume eq: "chars_of (markers_of s n) = bot_ids_of n"
  from assms obtain b where b: "b \<in> set (bot_ids_of n)" "2 \<le> count_list (chars_of s) b"
    by (auto simp: marker_twice_def list_ex_iff)
  then have "2 \<le> count_list (bot_ids_of n) b"
    using count_markers [OF b(1), of s] eq by simp
  moreover have "count_list (bot_ids_of n) b \<le> 1"
    using distinct_bot_ids [of n] by (rule distinct_count_le)
  ultimately show False by simp
qed

lemma check_layout_raises:
  assumes "illegal_char s n \<or> marker_missing s n \<or> marker_twice s n \<or> rows_differ s"
  shows "check_layout s n = Inl LayoutEncodingException"
proof -
  have "\<not> ((\<forall>c\<in>set s. [c] \<in> set (layout_chars @ bot_ids_of n @ [[newline]]))
         \<and> chars_of (markers_of s n) = bot_ids_of n
         \<and> (\<forall>l\<in>set (split s newline). length l = length (hd (split s newline))))"
    using assms marker_missing_neq [of s n] marker_twice_neq [of s n]
    unfolding illegal_char_iff rows_differ_iff by blast
  then show ?thesis
    by (simp only: check_layout_eq if_False)
qed

lemma count_chars_long: "length b \<noteq> 1 \<Longrightarrow> count_list (chars_of s) b = 0"
  by (induction s) (auto simp: chars_of_def)

lemma markers_eq_bot_ids:
  assumes nm: "\<not> marker_missing s n" and nt: "\<not> marker_twice s n"
    and asc: "markers_ascending s n"
  shows "chars_of (markers_of s n) = bot_ids_of n"
proof -
  let ?k = "nat n"
  let ?ms = "markers_of s n"
  have one: "count_list (chars_of s) b = 1" if "b \<in> set (bot_ids_of n)" for b
  proof -
    have "count_list (chars_of s) b \<noteq> 0" "\<not> 2 \<le> count_list (chars_of s) b"
      using nm nt that by (auto simp: marker_missing_def marker_twice_def list_ex_iff)
    then show ?thesis by simp
  qed
  have k: "?k \<le> 10"
  proof (rule ccontr)
    assume "\<not> ?k \<le> 10"
    then have "str 10 \<in> set (bot_ids_of n)"
      by (simp add: bot_ids_of_def)
    then have "count_list (chars_of s) (str 10) = 1" by (rule one)
    moreover have "length (str 10) \<noteq> 1"
      using length_str_big [of 10] by simp
    ultimately show False using count_chars_long [of "str 10" s] by simp
  qed
  have B: "bot_ids_of n = map (\<lambda>i. [digits ! i]) [0..<?k]"
    using k by (simp add: bot_ids_of_def str_small)
  have ms_sub: "set (chars_of ?ms) \<subseteq> set (bot_ids_of n)"
    by (auto simp: markers_of_def chars_of_def)
  have cnt: "count_list (chars_of ?ms) b = 1" if "b \<in> set (bot_ids_of n)" for b
    using that by (simp add: count_markers one)
  have d: "distinct (chars_of ?ms)"
  proof (rule count_le_distinct, rule ballI)
    fix x assume "x \<in> set (chars_of ?ms)"
    then have "x \<in> set (bot_ids_of n)" using ms_sub by blast
    then show "count_list (chars_of ?ms) x \<le> 1" using cnt by simp
  qed
  have set_eq: "set (chars_of ?ms) = set (bot_ids_of n)"
  proof
    show "set (chars_of ?ms) \<subseteq> set (bot_ids_of n)" by (rule ms_sub)
    show "set (bot_ids_of n) \<subseteq> set (chars_of ?ms)"
    proof
      fix b assume "b \<in> set (bot_ids_of n)"
      then have "count_list (chars_of ?ms) b \<noteq> 0" using cnt by simp
      then show "b \<in> set (chars_of ?ms)" by (simp add: count_list_0_iff)
    qed
  qed
  have redo: "[c] = str (digit_value c)" and small: "digit_value c < ?k"
    if "c \<in> set ?ms" for c
  proof -
    from that have "[c] \<in> set (bot_ids_of n)" by (simp add: markers_of_def)
    then obtain i where i: "i < ?k" "[c] = [digits ! i]" by (auto simp: B)
    then have "digit_value c = i" using k by (simp add: digit_value_digits)
    then show "[c] = str (digit_value c)" "digit_value c < ?k"
      using i k by (simp_all add: str_small)
  qed
  have rebuild: "chars_of ?ms = map str (map digit_value ?ms)"
    using redo by (simp add: chars_of_def)
  have dv: "distinct (map digit_value ?ms)"
    using d unfolding rebuild by (rule distinct_map [THEN iffD1, THEN conjunct1])
  have sv: "set (map digit_value ?ms) = {0..<?k}"
  proof
    show "set (map digit_value ?ms) \<subseteq> {0..<?k}" using small by auto
    show "{0..<?k} \<subseteq> set (map digit_value ?ms)"
    proof
      fix i assume "i \<in> {0..<?k}"
      then have "str i \<in> set (bot_ids_of n)" by (simp add: bot_ids_of_def)
      then have "str i \<in> set (map str (map digit_value ?ms))"
        using set_eq rebuild by simp
      then obtain j where "j \<in> set (map digit_value ?ms)" "str i = str j" by auto
      then show "i \<in> set (map digit_value ?ms)" using str_inj by blast
    qed
  qed
  have "map digit_value ?ms = [0..<?k]"
  proof (rule sorted_distinct_set_unique)
    show "sorted (map digit_value ?ms)" using asc by (simp add: markers_ascending_def)
    show "distinct (map digit_value ?ms)" by (rule dv)
    show "sorted [0..<?k]" by simp
    show "distinct [0..<?k]" by simp
    show "set (map digit_value ?ms) = set [0..<?k]" using sv by simp
  qed
  then show ?thesis
    by (simp only: rebuild bot_ids_of_def)
qed

lemma check_layout_returns:
  assumes "\<not> illegal_char s n" "\<not> marker_missing s n" "\<not> marker_twice s n"
    "\<not> rows_differ s" "markers_ascending s n"
  shows "check_layout s n = Inr ()"
proof -
  have c: "(\<forall>c\<in>set s. [c] \<in> set (layout_chars @ bot_ids_of n @ [[newline]]))
         \<and> chars_of (markers_of s n) = bot_ids_of n
         \<and> (\<forall>l\<in>set (split s newline). length l = length (hd (split s newline)))"
    using assms(1,4) markers_eq_bot_ids [OF assms(2,3,5)]
    unfolding illegal_char_iff rows_differ_iff by blast
  show ?thesis
    unfolding check_layout_eq by (rule if_P) (rule c)
qed

text \<open>
  C1, as the code has it. \<open>check_layout\<close> raises \<open>LayoutEncodingException\<close> whenever
  the text has a character outside the list \<open>legal\<close> of the code (wall, food, harvester
  \<open>c\<close>, destroyer \<open>o\<close>, free, newline and the markers of the ids below \<open>n\<close>), or a
  marker of an id below \<open>n\<close> is not in the text, or it is there twice or more, or a row
  differs in length from the first row. When none of the four holds and the markers stand
  in the text in the order of their ids, it returns without raising.
\<close>

theorem check_layout_conditions:
  "(illegal_char s n \<or> marker_missing s n \<or> marker_twice s n \<or> rows_differ s
      \<longrightarrow> check_layout s n = Inl LayoutEncodingException)
   \<and> (\<not> illegal_char s n \<and> \<not> marker_missing s n \<and> \<not> marker_twice s n
        \<and> \<not> rows_differ s \<and> markers_ascending s n
      \<longrightarrow> check_layout s n = Inr ())"
  using check_layout_raises [of s n] check_layout_returns [of s n] by blast

theorem check_layout_conditions_witness:
  "illegal_char ''#0x1#'' 2 \<and> check_layout ''#0x1#'' 2 = Inl LayoutEncodingException
   \<and> marker_missing ''#0 #'' 2 \<and> check_layout ''#0 #'' 2 = Inl LayoutEncodingException
   \<and> marker_twice ''#011#'' 2 \<and> check_layout ''#011#'' 2 = Inl LayoutEncodingException
   \<and> rows_differ ''#0#\<newline>#1'' \<and> check_layout ''#0#\<newline>#1'' 2 = Inl LayoutEncodingException
   \<and> \<not> illegal_char ''#0.#\<newline>#c1#'' 2 \<and> \<not> marker_missing ''#0.#\<newline>#c1#'' 2
   \<and> \<not> marker_twice ''#0.#\<newline>#c1#'' 2 \<and> \<not> rows_differ ''#0.#\<newline>#c1#''
   \<and> markers_ascending ''#0.#\<newline>#c1#'' 2 \<and> check_layout ''#0.#\<newline>#c1#'' 2 = Inr ()"
proof -
  have a: "illegal_char ''#0x1#'' 2" by code_simp
  have b: "marker_missing ''#0 #'' 2" by code_simp
  have c: "marker_twice ''#011#'' 2" by code_simp
  have d: "rows_differ ''#0#\<newline>#1''" by code_simp
  have e: "\<not> illegal_char ''#0.#\<newline>#c1#'' 2" "\<not> marker_missing ''#0.#\<newline>#c1#'' 2"
    "\<not> marker_twice ''#0.#\<newline>#c1#'' 2" "\<not> rows_differ ''#0.#\<newline>#c1#''"
    "markers_ascending ''#0.#\<newline>#c1#'' 2"
    by code_simp+
  show ?thesis
    using a b c d e
      check_layout_conditions [of "''#0x1#''" 2]
      check_layout_conditions [of "''#0 #''" 2]
      check_layout_conditions [of "''#011#''" 2]
      check_layout_conditions [of "''#0#\<newline>#1''" 2]
      check_layout_conditions [of "''#0.#\<newline>#c1#''" 2]
    by blast
qed

text \<open>
  C1 as stated fails: the harvester character \<open>c\<close> is none of wall, food, free,
  newline or a marker, and a layout with it passes the check.
\<close>

theorem check_layout_harvester_counterexample:
  "unrecognized_char ''#0c1#'' 2 \<and> check_layout ''#0c1#'' 2 = Inr ()"
  by code_simp

text \<open>
  C5. The layout of \<open>test_convenience\<close>, for 4 bots, has each of the markers 0, 1, 2, 3
  exactly once, only legal characters and rows of one length, and \<open>check_layout\<close> raises
  on it: the markers stand in the order 0, 2, 1, 3 in the text, and the list
  \<open>existing_bots\<close>, in that order, is compared with \<open>bot_ids\<close> as a list.
\<close>

theorem check_layout_rejects_test_layout:
  "check_layout test_layout 4 = Inl LayoutEncodingException
   \<and> \<not> illegal_char test_layout 4
   \<and> \<not> marker_missing test_layout 4
   \<and> \<not> marker_twice test_layout 4
   \<and> \<not> rows_differ test_layout
   \<and> map digit_value (markers_of test_layout 4) = [0, 2, 1, 3]"
  by code_simp

text \<open>
  The markers are compared with the characters of the text one by one, so a marker of
  two digits is never found: for more than ten bots \<open>check_layout\<close> raises on every
  text.
\<close>

lemma check_layout_more_than_ten:
  assumes "10 < n"
  shows "check_layout s n = Inl LayoutEncodingException"
proof -
  have "str 10 \<in> set (bot_ids_of n)"
    using assms by (simp add: bot_ids_of_def)
  moreover have "count_list (chars_of s) (str 10) = 0"
    using length_str_big [of 10] by (intro count_chars_long) simp
  ultimately have "marker_missing s n"
    by (auto simp: marker_missing_def list_ex_iff)
  then show ?thesis by (intro check_layout_raises) simp
qed

section \<open>Properties of the string functions\<close>

lemma split_no_sep: "l \<in> set (split s sep) \<Longrightarrow> sep \<notin> set l"
proof (induction s arbitrary: l)
  case Nil
  then show ?case by simp
next
  case (Cons c cs)
  show ?case
  proof (cases "c = sep")
    case True
    then show ?thesis using Cons by auto
  next
    case False
    obtain x xs where sp: "split cs sep = x # xs"
      using split_not_Nil [of cs sep] by (cases "split cs sep") auto
    then have "l = c # x \<or> l \<in> set xs" using Cons.prems False by simp
    then show ?thesis
      using Cons.IH [of x] Cons.IH [of l] sp False by auto
  qed
qed

lemma split_append_sep:
  "sep \<notin> set x \<Longrightarrow> split (x @ sep # s) sep = x # split s sep"
  by (induction x) auto

lemma split_no_sep_id: "sep \<notin> set x \<Longrightarrow> split x sep = [x]"
  by (induction x) auto

lemma split_join:
  "xs \<noteq> [] \<Longrightarrow> \<forall>x\<in>set xs. sep \<notin> set x \<Longrightarrow> split (join [sep] xs) sep = xs"
proof (induction xs)
  case Nil
  then show ?case by simp
next
  case (Cons x xs)
  show ?case
  proof (cases xs)
    case Nil
    then show ?thesis using Cons.prems by (simp add: split_no_sep_id)
  next
    case (Cons y ys)
    then have "split (join [sep] xs) sep = xs" using Cons.IH Cons.prems by simp
    then show ?thesis using Cons Cons.prems by (simp add: split_append_sep)
  qed
qed

lemma set_strip: "set (strip l) \<subseteq> set l"
proof -
  have "set (dropWhile isspace (rev (dropWhile isspace l))) \<subseteq> set (rev (dropWhile isspace l))"
    by (rule set_dropWhileD [THEN subsetI])
  also have "\<dots> \<subseteq> set l"
    using set_dropWhileD [of _ isspace l] by auto
  finally show ?thesis by (simp add: strip_def)
qed

lemma dropWhile_id: "xs = [] \<or> \<not> P (hd xs) \<Longrightarrow> dropWhile P xs = xs"
  by (cases xs) auto

lemma hd_rev_dropWhile_rev:
  assumes "dropWhile P (rev t) \<noteq> []"
  shows "hd (rev (dropWhile P (rev t))) = hd t"
proof -
  have "rev t = takeWhile P (rev t) @ dropWhile P (rev t)" by simp
  then have "t = rev (dropWhile P (rev t)) @ rev (takeWhile P (rev t))"
    by (metis rev_append rev_rev_ident)
  then show ?thesis
    using assms by (metis hd_append2 rev_is_Nil_conv)
qed

lemma strip_idem: "strip (strip s) = strip s"
proof -
  let ?t = "dropWhile isspace s"
  let ?u = "dropWhile isspace (rev ?t)"
  have 1: "dropWhile isspace (rev ?u) = rev ?u"
  proof (rule dropWhile_id, cases "?u = []")
    case True
    then show "rev ?u = [] \<or> \<not> isspace (hd (rev ?u))" by simp
  next
    case False
    then have "hd (rev ?u) = hd ?t" by (rule hd_rev_dropWhile_rev)
    moreover have "?t \<noteq> []"
    proof
      assume "?t = []"
      then have "?u = []" by (simp only: rev.simps dropWhile.simps)
      then show False using False by blast
    qed
    then have "\<not> isspace (hd ?t)" by (rule hd_dropWhile)
    ultimately show "rev ?u = [] \<or> \<not> isspace (hd (rev ?u))" by simp
  qed
  show ?thesis
    unfolding strip_def 1 by simp
qed

lemma split_strip_layout:
  "split (strip_layout s) newline = map strip (split s newline)"
proof -
  have "\<forall>x\<in>set (map strip (split s newline)). newline \<notin> set x"
    using split_no_sep [of _ s newline] set_strip by fastforce
  then show ?thesis
    unfolding strip_layout_def by (intro split_join) simp_all
qed

lemma convert_to_grid_strip_layout:
  "convert_to_grid (strip_layout s) = split (strip_layout s) newline"
  by (simp add: convert_to_grid_def split_strip_layout strip_idem)

lemma find_str_split:
  "find_str s sep = (if sep \<in> set s then int (length (hd (split s sep))) else - 1)"
proof (induction s)
  case Nil
  show ?case by simp
next
  case (Cons c cs)
  obtain x xs where sp: "split cs sep = x # xs"
    using split_not_Nil [of cs sep] by (cases "split cs sep") auto
  show ?case using Cons sp by (auto simp: Let_def)
qed

lemma sep_in_join:
  "2 \<le> length xs \<Longrightarrow> sep \<in> set (join [sep] xs)"
proof (induction xs)
  case Nil
  then show ?case by simp
next
  case (Cons x xs)
  then obtain y ys where "xs = y # ys" by (cases xs) auto
  then show ?case by simp
qed

lemma length_split_sep: "sep \<in> set s \<Longrightarrow> 2 \<le> length (split s sep)"
proof (induction s)
  case Nil
  then show ?case by simp
next
  case (Cons c cs)
  obtain x xs where sp: "split cs sep = x # xs"
    using split_not_Nil [of cs sep] by (cases "split cs sep") auto
  show ?case
  proof (cases "c = sep")
    case True
    then show ?thesis using sp by simp
  next
    case False
    then have "sep \<in> set cs" using Cons.prems by simp
    then show ?thesis using Cons.IH sp False by simp
  qed
qed

lemma newline_strip_layout:
  "newline \<in> set s \<Longrightarrow> newline \<in> set (strip_layout s)"
  unfolding strip_layout_def
  by (rule sep_in_join) (simp add: length_split_sep)

lemma set_split_subset: "l \<in> set (split s sep) \<Longrightarrow> c \<in> set l \<Longrightarrow> c \<in> set s"
proof (induction s arbitrary: l)
  case Nil
  then show ?case by simp
next
  case (Cons a cs)
  obtain x xs where sp: "split cs sep = x # xs"
    using split_not_Nil [of cs sep] by (cases "split cs sep") auto
  show ?case
  proof (cases "a = sep")
    case True
    then show ?thesis using Cons sp by auto
  next
    case False
    then have "l = a # x \<or> l \<in> set xs" using Cons.prems sp by simp
    then show ?thesis
      using Cons.IH [of x] Cons.IH [of l] Cons.prems(2) sp by auto
  qed
qed

lemma split_covers:
  "c \<in> set s \<Longrightarrow> c \<noteq> sep \<Longrightarrow> \<exists>l\<in>set (split s sep). c \<in> set l"
proof (induction s)
  case Nil
  then show ?case by simp
next
  case (Cons a cs)
  obtain x xs where sp: "split cs sep = x # xs"
    using split_not_Nil [of cs sep] by (cases "split cs sep") auto
  show ?case
  proof (cases "c \<in> set cs")
    case True
    then obtain l where "l \<in> set (x # xs)" "c \<in> set l"
      using Cons.IH Cons.prems(2) sp by auto
    then show ?thesis using sp by (cases "a = sep") auto
  next
    case False
    then have "c = a" using Cons.prems(1) by simp
    then show ?thesis using sp Cons.prems(2) by auto
  qed
qed

section \<open>The loops over the cells\<close>

lemma for_each_invariant:
  assumes "I 0 s0"
    and "\<And>k s. k < length xs \<Longrightarrow> I k s \<Longrightarrow> \<exists>s'. body (xs ! k) s = Inr s' \<and> I (Suc k) s'"
  shows "\<exists>s. for_each body xs s0 = Inr s \<and> I (length xs) s"
  using assms
proof (induction xs arbitrary: I s0)
  case Nil
  then show ?case by simp
next
  case (Cons x xs)
  obtain s1 where s1: "body x s0 = Inr s1" "I (Suc 0) s1"
    using Cons.prems(2) [of 0 s0] Cons.prems(1) by auto
  have "\<exists>s. for_each body xs s1 = Inr s \<and> I (Suc (length xs)) s"
  proof (rule Cons.IH [of "\<lambda>k. I (Suc k)"])
    show "I (Suc 0) s1" by (rule s1)
    show "\<exists>s'. body (xs ! k) s = Inr s' \<and> I (Suc (Suc k)) s'"
      if "k < length xs" "I (Suc k) s" for k s
      using Cons.prems(2) [of "Suc k" s] that by simp
  qed
  then show ?case using s1 by simp
qed

lemma grid_getitem_ok:
  "h < length g \<Longrightarrow> w < length (g ! h) \<Longrightarrow> grid_getitem g h w = Inr (g ! h ! w)"
  by (simp add: grid_getitem_def list_getitem_def)

lemma grid_setitem_ok:
  "h < length g \<Longrightarrow> w < length (g ! h) \<Longrightarrow>
     grid_setitem g h w v = Inr (g[h := (g ! h)[w := v]])"
  by (simp add: grid_setitem_def list_getitem_def list_setitem_def)

lemma cell_index_inj:
  fixes h w h' w' W :: nat
  assumes "w < W" "w' < W" "h * W + w = h' * W + w'"
  shows "h = h' \<and> w = w'"
proof -
  have "(h * W + w) div W = h" "(h' * W + w') div W = h'"
    using assms(1,2) by simp_all
  then have "h = h'" using assms(3) by metis
  then show ?thesis using assms(3) by simp
qed

lemma cells_nth:
  assumes "k < H * W"
  shows "List.product [0..<H] [0..<W] ! k = (k div W, k mod W)"
proof -
  have W: "0 < W" using assms by (cases W) auto
  have "k div W < H" using assms W by (simp add: less_mult_imp_div_less)
  then show ?thesis
    using assms W by (simp add: product_nth)
qed

text \<open>A loop over the cells that rewrites each cell with f.\<close>

lemma cells_loop:
  fixes g :: "'c list list" and f :: "'c \<Rightarrow> 'c"
  assumes len: "length g = H" and rows: "\<forall>h<H. length (g ! h) = W"
    and J0: "J 0 aux0"
    and step: "\<And>h w aux g'. h < H \<Longrightarrow> w < W \<Longrightarrow> length g' = H
        \<Longrightarrow> \<forall>h<H. length (g' ! h) = W \<Longrightarrow> g' ! h ! w = g ! h ! w \<Longrightarrow> J (h * W + w) aux
        \<Longrightarrow> \<exists>aux'. body (h, w) (aux, g') = Inr (aux', g'[h := (g' ! h)[w := f (g ! h ! w)]])
              \<and> J (Suc (h * W + w)) aux'"
  shows "\<exists>aux. for_each body (List.product [0..<H] [0..<W]) (aux0, g) = Inr (aux, map (map f) g)
           \<and> J (H * W) aux"
proof -
  let ?xs = "List.product [0..<H] [0..<W]"
  define I where "I k s \<longleftrightarrow> J k (fst s) \<and> length (snd s) = H
      \<and> (\<forall>h<H. length (snd s ! h) = W)
      \<and> (\<forall>h<H. \<forall>w<W. snd s ! h ! w = (if h * W + w < k then f (g ! h ! w) else g ! h ! w))"
    for k and s :: "'a \<times> 'c list list"
  have lx: "length ?xs = H * W" by (simp add: length_product)
  have I0: "I 0 (aux0, g)"
    using len rows J0 by (simp add: I_def)
  have Istep: "\<exists>s'. body (?xs ! k) s = Inr s' \<and> I (Suc k) s'"
    if k: "k < length ?xs" and Ik: "I k s" for k s
  proof -
    obtain aux g' where s: "s = (aux, g')" by (cases s)
    let ?h = "k div W" and ?w = "k mod W"
    have kk: "k < H * W" using k lx by simp
    have W: "0 < W" using kk by (cases W) auto
    have h: "?h < H" using kk W by (simp add: less_mult_imp_div_less)
    have w: "?w < W" using W by simp
    have keq: "?h * W + ?w = k" by simp
    have inv: "J k aux" "length g' = H" "\<forall>h<H. length (g' ! h) = W"
      "\<forall>h<H. \<forall>w<W. g' ! h ! w = (if h * W + w < k then f (g ! h ! w) else g ! h ! w)"
      using Ik by (simp_all add: I_def s)
    have cur: "g' ! ?h ! ?w = g ! ?h ! ?w"
      using inv(4) h w keq by simp
    obtain aux' where b: "body (?h, ?w) (aux, g') = Inr (aux', g'[?h := (g' ! ?h)[?w := f (g ! ?h ! ?w)]])"
      and J': "J (Suc k) aux'"
      using step [OF h w inv(2) inv(3) cur] inv(1) keq by auto
    let ?g'' = "g'[?h := (g' ! ?h)[?w := f (g ! ?h ! ?w)]]"
    have l1: "length ?g'' = H" using inv(2) by simp
    have l2: "\<forall>h<H. length (?g'' ! h) = W"
      using inv(2,3) h by (auto simp: nth_list_update)
    have l3: "?g'' ! h' ! w' = (if h' * W + w' < Suc k then f (g ! h' ! w') else g ! h' ! w')"
      if "h' < H" "w' < W" for h' w'
    proof (cases "h' = ?h \<and> w' = ?w")
      case True
      then show ?thesis using h w inv(2,3) keq by simp
    next
      case False
      then have ne: "h' * W + w' \<noteq> k"
        using cell_index_inj [of w' W ?w h' ?h] that w keq by auto
      have "?g'' ! h' ! w' = g' ! h' ! w'"
      proof (cases "h' = ?h")
        case True
        then have "w' \<noteq> ?w" using False by simp
        then show ?thesis using True h inv(2) by simp
      next
        case False
        then show ?thesis by simp
      qed
      then show ?thesis using inv(4) that ne by (simp add: less_Suc_eq)
    qed
    have "I (Suc k) (aux', ?g'')"
      using J' l1 l2 l3 by (simp add: I_def)
    then show ?thesis
      using b cells_nth [OF kk] s by auto
  qed
  obtain s where fin: "for_each body ?xs (aux0, g) = Inr s" "I (length ?xs) s"
    using for_each_invariant [of I "(aux0, g)" ?xs body, OF I0 Istep] by blast
  obtain aux g' where s: "s = (aux, g')" by (cases s)
  have inv: "J (H * W) aux" "length g' = H" "\<forall>h<H. length (g' ! h) = W"
    "\<forall>h<H. \<forall>w<W. g' ! h ! w = (if h * W + w < H * W then f (g ! h ! w) else g ! h ! w)"
    using fin(2) by (simp_all add: I_def s lx)
  have all: "h * W + w < H * W" if "h < H" "w < W" for h w
  proof -
    have "h * W + w < Suc h * W" using that by simp
    also have "\<dots> \<le> H * W" using that by (intro mult_le_mono1) simp
    finally show ?thesis .
  qed
  have "g' = map (map f) g"
  proof (rule nth_equalityI)
    show "length g' = length (map (map f) g)" using inv(2) len by simp
    fix h assume "h < length g'"
    then have h: "h < H" using inv(2) by simp
    show "g' ! h = map (map f) g ! h"
    proof (rule nth_equalityI)
      show "length (g' ! h) = length (map (map f) g ! h)"
        using h inv(3) rows len by simp
      fix w assume "w < length (g' ! h)"
      then have w: "w < W" using h inv(3) by simp
      show "g' ! h ! w = map (map f) g ! h ! w"
        using inv(4) h w all [OF h w] len rows by simp
    qed
  qed
  then show ?thesis using fin(1) inv(1) s by auto
qed

lemma marker_digit:
  assumes "[c] \<in> set (bot_ids_of n)"
  shows "c \<in> set digits" "digit_value c < nat n"
proof -
  obtain i where i: "i < nat n" "[c] = str i"
    using assms by (auto simp: bot_ids_of_def)
  have "i < 10"
  proof (rule ccontr)
    assume "\<not> i < 10"
    then have "2 \<le> length (str i)" by (intro length_str_big) simp
    then show False using i(2) by (metis length_Cons list.size(3) numeral_le_one_iff semiring_norm(69) One_nat_def)
  qed
  then have c: "c = digits ! i" using i(2) by (simp add: str_small)
  have "length digits = 10" by (simp add: digits_def)
  then show "c \<in> set digits" using c \<open>i < 10\<close> nth_mem [of i digits] by simp
  show "digit_value c < nat n" using c \<open>i < 10\<close> i(1) by (simp add: digit_value_digits)
qed

lemma update_progress:
  fixes t :: "'x list list"
  assumes "length t = H" "\<forall>h<H. length (t ! h) = W" "h0 < H" "w0 < W"
    and "\<forall>h<H. \<forall>w<W. t ! h ! w = (if h * W + w < h0 * W + w0 then p h w else q h w)"
    and "v = p h0 w0"
  shows "length (t[h0 := (t ! h0)[w0 := v]]) = H"
    and "\<forall>h<H. length (t[h0 := (t ! h0)[w0 := v]] ! h) = W"
    and "\<forall>h<H. \<forall>w<W. t[h0 := (t ! h0)[w0 := v]] ! h ! w
           = (if h * W + w < Suc (h0 * W + w0) then p h w else q h w)"
proof -
  let ?t = "t[h0 := (t ! h0)[w0 := v]]"
  show "length ?t = H" using assms(1) by simp
  show "\<forall>h<H. length (?t ! h) = W"
    using assms(1,2,3) by (auto simp: nth_list_update)
  show "\<forall>h<H. \<forall>w<W. ?t ! h ! w = (if h * W + w < Suc (h0 * W + w0) then p h w else q h w)"
  proof (intro allI impI)
    fix h w assume hw: "h < H" "w < W"
    show "?t ! h ! w = (if h * W + w < Suc (h0 * W + w0) then p h w else q h w)"
    proof (cases "h = h0 \<and> w = w0")
      case True
      then show ?thesis using assms(1,2,3,4,6) by simp
    next
      case False
      then have ne: "h * W + w \<noteq> h0 * W + w0"
        using cell_index_inj [of w W w0 h h0] hw assms(4) by auto
      have "?t ! h ! w = t ! h ! w"
      proof (cases "h = h0")
        case True
        then have "w \<noteq> w0" using False by simp
        then show ?thesis using True assms(1,3) by simp
      next
        case False
        then show ?thesis by simp
      qed
      then show ?thesis using assms(5) hw ne by (simp add: less_Suc_eq)
    qed
  qed
qed

lemma marker_digit_str:
  assumes "[c] \<in> set (bot_ids_of n)"
  shows "[c] = str (digit_value c)"
proof -
  obtain i where i: "i < nat n" "[c] = str i"
    using assms by (auto simp: bot_ids_of_def)
  have "decimal_value [c] = i" using i(2) decimal_value_str by simp
  then have "digit_value c = i" by (simp add: decimal_value_def)
  then show ?thesis using i(2) by simp
qed

lemma initial_positions_start:
  assumes len: "length g = H" and rows: "\<forall>h<H. length (g ! h) = W"
  shows "\<exists>start. initial_positions g (int H, int W) n
            = Inr (start, map (map (clear_bots n)) g) \<and> length start = nat n
          \<and> (\<forall>i<nat n. (\<exists>h<H. \<exists>w<W. [g ! h ! w] = str i \<and> start ! i = (int h, int w))
                \<or> (\<forall>h<H. \<forall>w<W. [g ! h ! w] \<noteq> str i))"
proof -
  let ?B = "bot_ids_of n"
  define J where "J k start \<longleftrightarrow> length start = nat n
      \<and> (\<forall>i<nat n. (\<exists>h<H. \<exists>w<W. [g ! h ! w] = str i \<and> start ! i = (int h, int w))
            \<or> (\<forall>h<H. \<forall>w<W. h * W + w < k \<longrightarrow> [g ! h ! w] \<noteq> str i))"
    for k and start :: "(int \<times> int) list"
  have J0: "J 0 (replicate (nat n) (0, 0))" by (simp add: J_def)
  have step: "\<exists>aux'. initial_positions_body ?B (h, w) (aux, g')
        = Inr (aux', g'[h := (g' ! h)[w := clear_bots n (g ! h ! w)]]) \<and> J (Suc (h * W + w)) aux'"
    if h: "h < H" and w: "w < W" and l: "length g' = H" and r: "\<forall>h<H. length (g' ! h) = W"
      and c: "g' ! h ! w = g ! h ! w" and a: "J (h * W + w) aux"
    for h w aux g'
  proof -
    have hl: "h < length g'" "w < length (g' ! h)" using h w l r by simp_all
    have rd: "grid_getitem g' h w = Inr (g ! h ! w)"
      using grid_getitem_ok [OF hl] c by simp
    have la: "length aux = nat n" using a by (simp add: J_def)
    have old: "(\<exists>h'<H. \<exists>w'<W. [g ! h' ! w'] = str i \<and> aux ! i = (int h', int w'))
            \<or> (\<forall>h'<H. \<forall>w'<W. h' * W + w' < h * W + w \<longrightarrow> [g ! h' ! w'] \<noteq> str i)"
      if "i < nat n" for i
      using a that by (simp add: J_def)
    show ?thesis
    proof (cases "[g ! h ! w] \<in> set ?B")
      case True
      let ?d = "digit_value (g ! h ! w)"
      let ?aux' = "aux[?d := (int h, int w)]"
      have d: "g ! h ! w \<in> set digits" "?d < length aux"
        using marker_digit [OF True] la by simp_all
      have ds: "[g ! h ! w] = str ?d" using True by (rule marker_digit_str)
      have st: "list_setitem aux (int ?d) (int h, int w) = Inr ?aux'"
        using d(2) by (simp add: list_setitem_def)
      have new: "(\<exists>h'<H. \<exists>w'<W. [g ! h' ! w'] = str i \<and> ?aux' ! i = (int h', int w'))
            \<or> (\<forall>h'<H. \<forall>w'<W. h' * W + w' < Suc (h * W + w) \<longrightarrow> [g ! h' ! w'] \<noteq> str i)"
        if i: "i < nat n" for i
      proof (cases "i = ?d")
        case True
        then have "[g ! h ! w] = str i \<and> ?aux' ! i = (int h, int w)"
          using ds d(2) by simp
        then show ?thesis using h w by blast
      next
        case False
        then have ne: "[g ! h ! w] \<noteq> str i" using ds str_inj by metis
        have same: "?aux' ! i = aux ! i" using False by simp
        from old [OF i] show ?thesis
        proof
          assume "\<exists>h'<H. \<exists>w'<W. [g ! h' ! w'] = str i \<and> aux ! i = (int h', int w')"
          then show ?thesis unfolding same by blast
        next
          assume n: "\<forall>h'<H. \<forall>w'<W. h' * W + w' < h * W + w \<longrightarrow> [g ! h' ! w'] \<noteq> str i"
          have "[g ! h' ! w'] \<noteq> str i"
            if "h' < H" "w' < W" "h' * W + w' < Suc (h * W + w)" for h' w'
          proof (cases "h' * W + w' = h * W + w")
            case True
            then have "h' = h \<and> w' = w"
              using cell_index_inj [of w' W w h' h] that w by simp
            then show ?thesis using ne by simp
          next
            case False
            then show ?thesis using n that by simp
          qed
          then show ?thesis by blast
        qed
      qed
      have J': "J (Suc (h * W + w)) ?aux'"
        unfolding J_def using la new by simp
      show ?thesis
        using True d(1) J'
        by (simp add: initial_positions_body_def rd int_of_char_def st
            grid_setitem_ok [OF hl] clear_bots_def)
    next
      case False
      have g: "g'[h := (g' ! h)[w := g ! h ! w]] = g'"
        using c by (metis list_update_id)
      have new: "(\<exists>h'<H. \<exists>w'<W. [g ! h' ! w'] = str i \<and> aux ! i = (int h', int w'))
            \<or> (\<forall>h'<H. \<forall>w'<W. h' * W + w' < Suc (h * W + w) \<longrightarrow> [g ! h' ! w'] \<noteq> str i)"
        if i: "i < nat n" for i
      proof -
        have ne: "[g ! h ! w] \<noteq> str i" using False i by (auto simp: bot_ids_of_def)
        from old [OF i] show ?thesis
        proof
          assume "\<exists>h'<H. \<exists>w'<W. [g ! h' ! w'] = str i \<and> aux ! i = (int h', int w')"
          then show ?thesis by blast
        next
          assume n: "\<forall>h'<H. \<forall>w'<W. h' * W + w' < h * W + w \<longrightarrow> [g ! h' ! w'] \<noteq> str i"
          have "[g ! h' ! w'] \<noteq> str i"
            if "h' < H" "w' < W" "h' * W + w' < Suc (h * W + w)" for h' w'
          proof (cases "h' * W + w' = h * W + w")
            case True
            then have "h' = h \<and> w' = w"
              using cell_index_inj [of w' W w h' h] that w by simp
            then show ?thesis using ne by simp
          next
            case False
            then show ?thesis using n that by simp
          qed
          then show ?thesis by blast
        qed
      qed
      have J': "J (Suc (h * W + w)) aux"
        unfolding J_def using la new by simp
      show ?thesis
        using False J' g by (simp add: initial_positions_body_def rd clear_bots_def)
    qed
  qed
  obtain start where fin: "for_each (initial_positions_body ?B) (List.product [0..<H] [0..<W])
           (replicate (nat n) (0, 0), g) = Inr (start, map (map (clear_bots n)) g)"
      "J (H * W) start"
    using cells_loop [of g H W J "replicate (nat n) (0, 0)" "initial_positions_body ?B"
        "clear_bots n", OF len rows J0 step]
    by blast
  have all: "h * W + w < H * W" if "h < H" "w < W" for h w
  proof -
    have "h * W + w < Suc h * W" using that by simp
    also have "\<dots> \<le> H * W" using that by (intro mult_le_mono1) simp
    finally show ?thesis .
  qed
  have "(\<exists>h<H. \<exists>w<W. [g ! h ! w] = str i \<and> start ! i = (int h, int w))
                \<or> (\<forall>h<H. \<forall>w<W. [g ! h ! w] \<noteq> str i)" if "i < nat n" for i
    using fin(2) that all unfolding J_def by blast
  moreover have "length start = nat n" using fin(2) by (simp add: J_def)
  ultimately show ?thesis
    using fin(1) by (simp add: initial_positions_def cells_def)
qed

lemma initial_positions_rect:
  assumes len: "length g = H" and rows: "\<forall>h<H. length (g ! h) = W"
  shows "\<exists>start. initial_positions g (int H, int W) n
            = Inr (start, map (map (clear_bots n)) g) \<and> length start = nat n"
  using initial_positions_start [OF assms, of n] by blast

lemma extract_food_rect:
  assumes len: "length g = H" and rows: "\<forall>h<H. length (g ! h) = W"
  shows "extract_food g (int H, int W) = Inr (map (map is_food) g, map (map clear_food) g)"
proof -
  define J where "J k fg \<longleftrightarrow> length fg = H \<and> (\<forall>h<H. length (fg ! h) = W)
      \<and> (\<forall>h<H. \<forall>w<W. fg ! h ! w
            = (if h * W + w < k then is_food (g ! h ! w) else False))"
    for k and fg :: "bool list list"
  let ?fg0 = "replicate H (replicate W False)"
  have J0: "J 0 ?fg0" by (simp add: J_def)
  have step: "\<exists>aux'. extract_food_body (h, w) (aux, g')
        = Inr (aux', g'[h := (g' ! h)[w := clear_food (g ! h ! w)]]) \<and> J (Suc (h * W + w)) aux'"
    if h: "h < H" and w: "w < W" and l: "length g' = H" and r: "\<forall>h<H. length (g' ! h) = W"
      and c: "g' ! h ! w = g ! h ! w" and a: "J (h * W + w) aux"
    for h w aux g'
  proof -
    have hl: "h < length g'" "w < length (g' ! h)" using h w l r by simp_all
    have rd: "grid_getitem g' h w = Inr (g ! h ! w)"
      using grid_getitem_ok [OF hl] c by simp
    have inv: "length aux = H" "\<forall>h<H. length (aux ! h) = W"
      "\<forall>h'<H. \<forall>w'<W. aux ! h' ! w'
            = (if h' * W + w' < h * W + w then is_food (g ! h' ! w') else False)"
      using a by (simp_all add: J_def)
    have al: "h < length aux" "w < length (aux ! h)" using h w inv by simp_all
    let ?aux' = "aux[h := (aux ! h)[w := is_food (g ! h ! w)]]"
    have J': "J (Suc (h * W + w)) ?aux'"
      unfolding J_def
      using update_progress [OF inv(1) inv(2) h w inv(3) refl] by blast
    show ?thesis
    proof (cases "[g ! h ! w] = food")
      case True
      then have "is_food (g ! h ! w) = True" by (simp add: is_food_def)
      then show ?thesis
        using True J'
        by (simp add: extract_food_body_def rd grid_setitem_ok [OF al]
            grid_setitem_ok [OF hl] clear_food_def)
    next
      case False
      have "aux ! h ! w = False" using inv(3) h w by simp
      moreover have "is_food (g ! h ! w) = False" using False by (simp add: is_food_def)
      ultimately have e: "is_food (g ! h ! w) = aux ! h ! w" by simp
      have "?aux' = aux" unfolding e by simp
      moreover have "g'[h := (g' ! h)[w := g ! h ! w]] = g'"
        using c by (metis list_update_id)
      ultimately show ?thesis
        using False J' by (simp add: extract_food_body_def rd clear_food_def)
    qed
  qed
  obtain fg where fg: "for_each extract_food_body (List.product [0..<H] [0..<W]) (?fg0, g)
        = Inr (fg, map (map clear_food) g)" "J (H * W) fg"
    using cells_loop [of g H W J ?fg0 extract_food_body clear_food, OF len rows J0 step]
    by blast
  have inv: "length fg = H" "\<forall>h<H. length (fg ! h) = W"
    "\<forall>h<H. \<forall>w<W. fg ! h ! w = (if h * W + w < H * W then is_food (g ! h ! w) else False)"
    using fg(2) by (simp_all add: J_def)
  have all: "h * W + w < H * W" if "h < H" "w < W" for h w
  proof -
    have "h * W + w < Suc h * W" using that by simp
    also have "\<dots> \<le> H * W" using that by (intro mult_le_mono1) simp
    finally show ?thesis .
  qed
  have "fg = map (map is_food) g"
  proof (rule nth_equalityI)
    show "length fg = length (map (map is_food) g)" using inv(1) len by simp
    fix h assume "h < length fg"
    then have h: "h < H" using inv(1) by simp
    show "fg ! h = map (map is_food) g ! h"
    proof (rule nth_equalityI)
      show "length (fg ! h) = length (map (map is_food) g ! h)"
        using h inv(2) rows len by simp
      fix w assume "w < length (fg ! h)"
      then have w: "w < W" using h inv(2) by simp
      show "fg ! h ! w = map (map is_food) g ! h ! w"
        using inv(3) h w all [OF h w] len rows by simp
    qed
  qed
  then show ?thesis
    using fg(1) by (simp add: extract_food_def cells_def)
qed

section \<open>The constructor on a layout of several rows\<close>

lemma is_food_clear_bots: "is_food (clear_bots n c) = is_food c"
proof (cases "[c] \<in> set (bot_ids_of n)")
  case True
  then have "c \<in> set digits" by (rule marker_digit)
  then have "[c] \<noteq> food" by (auto simp: digits_def food_def)
  then show ?thesis using True by (simp add: is_food_def clear_bots_def food_def)
next
  case False
  then show ?thesis by (simp add: clear_bots_def)
qed

lemma static_after_clearing:
  assumes "[c] \<in> set (layout_chars @ bot_ids_of n @ [[newline]])" "c \<noteq> newline"
  shows "[clear_food (clear_bots n c)] \<in> set [wall, harvester, destroyer, free]"
proof (cases "[c] \<in> set (bot_ids_of n)")
  case True
  then show ?thesis by (simp add: clear_bots_def clear_food_def char_defs)
next
  case False
  then have "[c] \<in> set layout_chars" using assms by auto
  then show ?thesis
    using False by (auto simp: clear_bots_def clear_food_def layout_chars_def char_defs)
qed

text \<open>What the constructor computes on a layout of two rows or more.\<close>

lemma Universe_init_rows:
  assumes ok: "Universe_init layout_str n = Inr u" and nl: "newline \<in> set layout_str"
  defines "il \<equiv> strip_layout layout_str"
  defines "g0 \<equiv> split (strip_layout layout_str) newline"
  shows "check_layout il n = Inr ()"
    and "convert_to_grid il = g0"
    and "layout_shape il = (int (length g0), int (length (hd g0)))"
    and "\<forall>h<length g0. length (g0 ! h) = length (hd g0)"
    and "\<exists>start. length start = nat n
          \<and> initial_positions g0 (layout_shape il) n = Inr (start, map (map (clear_bots n)) g0)
          \<and> extract_food (map (map (clear_bots n)) g0) (layout_shape il)
              = Inr (map (map is_food) g0, map (map clear_food) (map (map (clear_bots n)) g0))
          \<and> u = \<lparr>initial_layout = il, number_bots = n,
                  width = int (length g0), height = int (length (hd g0)),
                  shape = layout_shape il,
                  layout = map (map clear_food) (map (map (clear_bots n)) g0),
                  initial_pos = start, bot_positions = start,
                  food_positions = map (map is_food) g0\<rparr>"
proof -
  show chk: "check_layout il n = Inr ()"
  proof (cases "check_layout il n")
    case (Inl e)
    then show ?thesis using ok by (simp add: Universe_init_def Let_def il_def)
  next
    case (Inr x)
    then show ?thesis by simp
  qed
  show grid: "convert_to_grid il = g0"
    by (simp add: il_def g0_def convert_to_grid_strip_layout)
  have "newline \<in> set il"
    unfolding il_def using nl by (rule newline_strip_layout)
  then show shp: "layout_shape il = (int (length g0), int (length (hd g0)))"
    by (simp add: layout_shape_def find_str_split il_def g0_def)
  have R: "\<forall>l\<in>set g0. length l = length (hd g0)"
  proof (rule ccontr)
    assume n: "\<not> (\<forall>l\<in>set g0. length l = length (hd g0))"
    have "check_layout il n = Inl LayoutEncodingException"
      unfolding check_layout_eq
      by (rule if_not_P) (use n in \<open>simp add: il_def g0_def\<close>)
    then show False using chk by simp
  qed
  then show rows: "\<forall>h<length g0. length (g0 ! h) = length (hd g0)"
    by simp
  let ?g1 = "map (map (clear_bots n)) g0"
  obtain start where st: "initial_positions g0 (int (length g0), int (length (hd g0))) n
      = Inr (start, ?g1)" "length start = nat n"
    using initial_positions_rect [OF refl rows] by blast
  have rows1: "\<forall>h<length g0. length (?g1 ! h) = length (hd g0)"
    using rows by simp
  have fd: "extract_food ?g1 (int (length g0), int (length (hd g0)))
      = Inr (map (map is_food) ?g1, map (map clear_food) ?g1)"
    by (rule extract_food_rect) (simp, rule rows1)
  have fg: "map (map is_food) ?g1 = map (map is_food) g0"
    by (simp add: comp_def is_food_clear_bots)
  have "Universe_init layout_str n =
      Inr \<lparr>initial_layout = il, number_bots = n,
            width = int (length g0), height = int (length (hd g0)),
            shape = layout_shape il,
            layout = map (map clear_food) ?g1,
            initial_pos = start, bot_positions = start,
            food_positions = map (map is_food) g0\<rparr>"
    using chk grid shp st(1) fd fg
    by (simp add: Universe_init_def Let_def il_def [symmetric])
  then show "\<exists>start. length start = nat n
          \<and> initial_positions g0 (layout_shape il) n = Inr (start, ?g1)
          \<and> extract_food ?g1 (layout_shape il)
              = Inr (map (map is_food) g0, map (map clear_food) ?g1)
          \<and> u = \<lparr>initial_layout = il, number_bots = n,
                  width = int (length g0), height = int (length (hd g0)),
                  shape = layout_shape il,
                  layout = map (map clear_food) ?g1,
                  initial_pos = start, bot_positions = start,
                  food_positions = map (map is_food) g0\<rparr>"
    using ok st fd fg shp by auto
qed

text \<open>
  On a valid layout of two rows or more, every bot has the position of a cell that held
  its marker, inside the grid, and the cell is free in the stored grid.
\<close>

lemma Universe_positions_rows:
  assumes ok: "Universe_init layout_str n = Inr u" and nl: "newline \<in> set layout_str"
  shows "length (initial_pos u) = nat n
    \<and> (\<forall>i<nat n. \<exists>h w. initial_pos u ! i = (int h, int w)
          \<and> h < length (layout u) \<and> w < length (layout u ! h)
          \<and> [convert_to_grid (initial_layout u) ! h ! w] = str i
          \<and> [layout u ! h ! w] = free)"
proof -
  let ?il = "strip_layout layout_str"
  let ?g0 = "split ?il newline"
  let ?H = "length ?g0" and ?W = "length (hd ?g0)"
  let ?g1 = "map (map (clear_bots n)) ?g0"
  note r = Universe_init_rows [OF assms]
  obtain start where st:
    "initial_positions ?g0 (layout_shape ?il) n = Inr (start, ?g1)"
    "u = \<lparr>initial_layout = ?il, number_bots = n,
          width = int ?H, height = int ?W,
          shape = layout_shape ?il,
          layout = map (map clear_food) ?g1,
          initial_pos = start, bot_positions = start,
          food_positions = map (map is_food) ?g0\<rparr>"
    using r(5) by blast
  obtain start' where st':
    "initial_positions ?g0 (int ?H, int ?W) n = Inr (start', ?g1)" "length start' = nat n"
    "\<forall>i<nat n. (\<exists>h<?H. \<exists>w<?W. [?g0 ! h ! w] = str i \<and> start' ! i = (int h, int w))
                \<or> (\<forall>h<?H. \<forall>w<?W. [?g0 ! h ! w] \<noteq> str i)"
    using initial_positions_start [OF refl r(4), of n] by blast
  have eq: "start' = start" using st(1) st'(1) r(3) by simp
  have sel: "initial_layout u = ?il" "layout u = map (map clear_food) ?g1"
    "initial_pos u = start"
    by (simp_all add: st(2))
  have M: "chars_of (markers_of ?il n) = bot_ids_of n"
  proof (rule ccontr)
    assume n: "chars_of (markers_of ?il n) \<noteq> bot_ids_of n"
    have "check_layout ?il n = Inl LayoutEncodingException"
      unfolding check_layout_eq by (rule if_not_P) (use n in blast)
    then show False using r(1) by simp
  qed
  have pos: "\<exists>h w. start ! i = (int h, int w) \<and> h < ?H \<and> w < ?W
        \<and> [?g0 ! h ! w] = str i" if i: "i < nat n" for i
  proof -
    have "str i \<in> set (bot_ids_of n)" using i by (simp add: bot_ids_of_def)
    then have "str i \<in> set (chars_of (markers_of ?il n))" using M by simp
    then obtain c where c: "c \<in> set ?il" "[c] = str i" "[c] \<in> set (bot_ids_of n)"
      by (auto simp: chars_of_def markers_of_def)
    have "c \<in> set digits" using c(3) by (rule marker_digit)
    then have "c \<noteq> newline" by (auto simp: digits_def newline_def)
    then obtain l where l: "l \<in> set ?g0" "c \<in> set l"
      using split_covers [OF c(1)] by blast
    obtain h where h: "h < ?H" "?g0 ! h = l" using l(1) by (auto simp: in_set_conv_nth)
    obtain w where w: "w < length l" "l ! w = c" using l(2) by (auto simp: in_set_conv_nth)
    have "w < ?W" using r(4) h w(1) by auto
    then have "\<not> (\<forall>h<?H. \<forall>w<?W. [?g0 ! h ! w] \<noteq> str i)"
      using h w(2) c(2) by auto
    then show ?thesis using st'(3) i eq by blast
  qed
  have cellfree: "\<exists>h w. start ! i = (int h, int w) \<and> h < length (layout u)
        \<and> w < length (layout u ! h) \<and> [convert_to_grid ?il ! h ! w] = str i
        \<and> [layout u ! h ! w] = free" if i: "i < nat n" for i
  proof -
    obtain h w where hw: "start ! i = (int h, int w)" "h < ?H" "w < ?W"
      "[?g0 ! h ! w] = str i"
      using pos [OF i] by blast
    have lw: "w < length (?g0 ! h)" using r(4) hw(2,3) by simp
    have "[?g0 ! h ! w] \<in> set (bot_ids_of n)"
      using hw(4) i by (simp add: bot_ids_of_def)
    then have "clear_food (clear_bots n (?g0 ! h ! w)) = CHR '' ''"
      by (simp add: clear_bots_def clear_food_def food_def)
    then have "[layout u ! h ! w] = free"
      using hw(2) lw by (simp add: sel(2) free_def)
    then show ?thesis
      using hw lw r(2) by (auto simp: sel(2))
  qed
  show ?thesis
    using st'(2) eq cellfree by (simp add: sel(1,3))
qed

text \<open>
  C2. A layout of one row has no newline, \<open>layout_shape\<close> gives it the width \<open>-1\<close>,
  and the loops of \<open>initial_positions\<close> and \<open>extract_food\<close> visit no cell: on the
  valid layout \<open>#0.1#\<close> with 2 bots both initial positions are \<open>(0, 0)\<close>, a wall
  cell, and the markers and the food stay in the stored grid. On layouts of two rows or
  more the claim holds (\<open>Universe_positions_rows\<close>).
\<close>

theorem Universe_one_row:
  "map_sum id (\<lambda>u. (initial_pos u, layout u, food_positions u, Universe.shape u))
     (Universe_init ''#0.1#'' 2)
   = Inr ([(0, 0), (0, 0)], [''#0.1#''], [[]], (1, - 1))"
  by code_simp

text \<open>
  On every valid layout of two rows or more, \<open>width\<close> is the number of rows of the grid
  and \<open>height\<close> the length of its rows.
\<close>

lemma Universe_width_is_rows:
  assumes ok: "Universe_init layout_str n = Inr u" and nl: "newline \<in> set layout_str"
  shows "Universe.width u = int (length (layout u))
    \<and> (\<forall>row\<in>set (layout u). Universe.height u = int (length row))"
proof -
  let ?il = "strip_layout layout_str"
  let ?g0 = "split ?il newline"
  note r = Universe_init_rows [OF assms]
  have rows: "\<forall>l\<in>set ?g0. length l = length (hd ?g0)"
    using r(4) by (auto simp: in_set_conv_nth)
  from r(5) have sel: "Universe.width u = int (length ?g0)"
    "Universe.height u = int (length (hd ?g0))"
    "layout u = map (map clear_food) (map (map (clear_bots n)) ?g0)"
    by auto
  show ?thesis
  proof (intro conjI ballI)
    show "Universe.width u = int (length (layout u))" by (simp add: sel)
    fix row assume "row \<in> set (layout u)"
    then obtain l where l: "l \<in> set ?g0" "length row = length l"
      by (auto simp: sel(3))
    have "length l = length (hd ?g0)" using rows l(1) by blast
    then show "Universe.height u = int (length row)"
      by (simp only: sel(2) l(2))
  qed
qed

text \<open>
  C6. On a valid layout of 3 rows and 4 columns the attribute \<open>width\<close> is 3, the number
  of rows, and the attribute \<open>height\<close> is 4, the number of columns: the constructor
  unpacks the pair (height, width) of \<open>layout_shape\<close> into \<open>width\<close>, \<open>height\<close>.
  It is so on every valid layout of two rows or more (\<open>Universe_width_is_rows\<close>).
\<close>

theorem Universe_width_height_swapped:
  "map_sum id (\<lambda>u. (Universe.width u, Universe.height u, length (layout u), map length (layout u)))
     (Universe_init ''####\<newline>#01#\<newline>####'' 2)
   = Inr (3, 4, 3, [4, 4, 4])"
  by code_simp

text \<open>
  What the constructor does on a valid layout of two rows or more: it first extracts
  the bot markers, each marker cell set to the free character, then the food, each food
  cell set to the free character; \<open>food_positions\<close> is true exactly at the cells that
  held the food character in the checked layout, and the stored grid has only wall,
  harvester, destroyer and free characters.
\<close>

lemma Universe_extraction:
  assumes "Universe_init layout_str n = Inr u" and "newline \<in> set layout_str"
  shows "\<exists>start grid1.
      initial_positions (convert_to_grid (initial_layout u)) (Universe.shape u) n
        = Inr (start, grid1)
      \<and> grid1 = map (map (clear_bots n)) (convert_to_grid (initial_layout u))
      \<and> extract_food grid1 (Universe.shape u) = Inr (food_positions u, layout u)
      \<and> layout u = map (map clear_food) grid1
      \<and> static_cells (layout u)
      \<and> food_positions u = map (map is_food) (convert_to_grid (initial_layout u))"
proof -
  let ?il = "strip_layout layout_str"
  let ?g0 = "split ?il newline"
  let ?g1 = "map (map (clear_bots n)) ?g0"
  note r = Universe_init_rows [OF assms]
  obtain start where st:
    "initial_positions ?g0 (layout_shape ?il) n = Inr (start, ?g1)"
    "extract_food ?g1 (layout_shape ?il) = Inr (map (map is_food) ?g0, map (map clear_food) ?g1)"
    "u = \<lparr>initial_layout = ?il, number_bots = n,
          width = int (length ?g0), height = int (length (hd ?g0)),
          shape = layout_shape ?il,
          layout = map (map clear_food) ?g1,
          initial_pos = start, bot_positions = start,
          food_positions = map (map is_food) ?g0\<rparr>"
    using r(5) by blast
  have sel: "initial_layout u = ?il" "Universe.shape u = layout_shape ?il"
    "layout u = map (map clear_food) ?g1" "food_positions u = map (map is_food) ?g0"
    by (simp_all add: st(3))
  have legal: "\<forall>c\<in>set ?il. [c] \<in> set (layout_chars @ bot_ids_of n @ [[newline]])"
  proof (rule ccontr)
    assume n: "\<not> (\<forall>c\<in>set ?il. [c] \<in> set (layout_chars @ bot_ids_of n @ [[newline]]))"
    have "check_layout ?il n = Inl LayoutEncodingException"
      unfolding check_layout_eq by (rule if_not_P) (use n in blast)
    then show False using r(1) by simp
  qed
  have cell: "[clear_food (clear_bots n c)] \<in> set [wall, harvester, destroyer, free]"
    if "l \<in> set ?g0" "c \<in> set l" for l c
  proof -
    have "c \<noteq> newline" using split_no_sep [OF that(1)] that(2) by auto
    moreover have "c \<in> set ?il" using that set_split_subset by blast
    ultimately show ?thesis using legal static_after_clearing by blast
  qed
  have static: "static_cells (layout u)"
    unfolding static_cells_def sel(3)
    using cell by (simp add: list_all_iff)
  show ?thesis
    using st(1,2) static by (simp add: sel r(2))
qed

lemma Universe_extraction_example:
  "newline \<in> set ''  #0c1# \<newline>#.###''
   \<and> (\<exists>u. Universe_init ''  #0c1# \<newline>#.###'' 2 = Inr u
        \<and> static_cells (layout u)
        \<and> layout u = map (map clear_food) (map (map (clear_bots 2)) [''#0c1#'', ''#.###''])
        \<and> food_positions u = map (map is_food) [''#0c1#'', ''#.###''])"
proof -
  let ?L = "''  #0c1# \<newline>#.###''"
  let ?U = "\<lparr>initial_layout = ''#0c1#\<newline>#.###'', number_bots = 2, width = 2, height = 5,
      shape = (2, 5), layout = [''# c #'', ''# ###''],
      initial_pos = [(0, 1), (0, 3)], bot_positions = [(0, 1), (0, 3)],
      food_positions = [[False, False, False, False, False],
                        [False, True, False, False, False]]\<rparr>"
  have nl: "newline \<in> set ?L" by code_simp
  have e: "Universe_init ?L 2 = Inr ?U" by code_simp
  have g: "convert_to_grid (initial_layout ?U) = [''#0c1#'', ''#.###'']" by code_simp
  show ?thesis
    using nl e Universe_extraction [OF e nl] unfolding g by auto
qed

text \<open>
  C3. The attribute \<open>layout\<close> is documented as the static layout, free spaces and
  walls only. \<open>check_layout\<close> accepts the harvester and destroyer characters and
  neither extraction clears them: on the valid layout of the rows \<open>#0c1#\<close> and
  \<open>#####\<close> with 2 bots the markers are extracted, and the stored grid keeps the cell
  \<open>c\<close>, which is neither wall nor free.
\<close>

theorem Universe_keeps_harvester:
  "map_sum id (\<lambda>u. (layout u, only_wall_free (layout u), initial_pos u))
     (Universe_init ''#0c1#\<newline>#####'' 2)
   = Inr ([''# c #'', ''#####''], False, [(0, 1), (0, 3)])"
  by code_simp

section \<open>The scenario of the specification\<close>


text \<open>
  Called on the grid of the scenario layout, past the check, \<open>initial_positions\<close>
  returns the positions row first: bot 1 is in row 2, column 15.
\<close>

lemma scenario_initial_positions:
  "map_sum id fst
     (initial_positions (convert_to_grid test_layout) (layout_shape test_layout) 4)
   = Inr [(1, 1), (2, 15), (2, 1), (3, 15)]"
  by code_simp

end
